theory Spec2Isabelle
  imports Main "HOL-Library.Char_ord" "HOL-Library.List_Lexorder"
begin

section \<open>Characters and strings\<close>

text \<open>
  A Python \<open>str\<close> is a sequence of code points. The model uses \<open>string\<close>, whose
  characters are the code points 0 to 255 (ASCII and Latin-1), so \<open>length\<close> counts what
  Python's \<open>len\<close> counts. The character classes below are the ones of Python's Unicode
  database on that range. \<open>sorted\<close> compares strings by code point, which is the
  lexicographic order of \<open>string\<close> over the order of \<open>char\<close>.
\<close>

definition code :: "char \<Rightarrow> nat" where
  "code c = of_char c"

text \<open>\<open>str.isspace\<close> on one character; also the class \<open>\s\<close> of \<open>re\<close>.\<close>

definition isspace :: "char \<Rightarrow> bool" where
  "isspace c = (let n = code c in (9 \<le> n \<and> n \<le> 13) \<or> (28 \<le> n \<and> n \<le> 32) \<or> n = 133 \<or> n = 160)"

text \<open>The class \<open>\d\<close> of \<open>re\<close>: the decimal digits.\<close>

definition isdecimal :: "char \<Rightarrow> bool" where
  "isdecimal c = (let n = code c in 48 \<le> n \<and> n \<le> 57)"

definition isalnum :: "char \<Rightarrow> bool" where
  "isalnum c = (let n = code c in
     (48 \<le> n \<and> n \<le> 57) \<or> (65 \<le> n \<and> n \<le> 90) \<or> (97 \<le> n \<and> n \<le> 122) \<or>
     n = 170 \<or> n = 178 \<or> n = 179 \<or> n = 181 \<or> n = 185 \<or> n = 186 \<or>
     (188 \<le> n \<and> n \<le> 190) \<or> (192 \<le> n \<and> n \<le> 214) \<or> (216 \<le> n \<and> n \<le> 246) \<or>
     (248 \<le> n \<and> n \<le> 255))"

text \<open>The class \<open>\w\<close> of \<open>re\<close>: alphanumeric or underscore.\<close>

definition isword :: "char \<Rightarrow> bool" where
  "isword c = (isalnum c \<or> c = CHR ''_'')"

definition isupper_char :: "char \<Rightarrow> bool" where
  "isupper_char c = (let n = code c in
     (65 \<le> n \<and> n \<le> 90) \<or> (192 \<le> n \<and> n \<le> 214) \<or> (216 \<le> n \<and> n \<le> 222))"

definition islower_char :: "char \<Rightarrow> bool" where
  "islower_char c = (let n = code c in
     (97 \<le> n \<and> n \<le> 122) \<or> n = 170 \<or> n = 181 \<or> n = 186 \<or>
     (223 \<le> n \<and> n \<le> 246) \<or> (248 \<le> n \<and> n \<le> 255))"

definition iscased :: "char \<Rightarrow> bool" where
  "iscased c = (isupper_char c \<or> islower_char c)"

definition lower_char :: "char \<Rightarrow> char" where
  "lower_char c = (if isupper_char c then char_of (code c + 32) else c)"

text \<open>
  The upper-case form of a character. The upper-case forms of the code points 181, 223
  and 255 are not single code points below 256; the model leaves these three characters
  unchanged. \<open>title\<close> is only applied to the lexicon keywords, which are ASCII.
\<close>

definition upper_char :: "char \<Rightarrow> char" where
  "upper_char c = (let n = code c in
     if (97 \<le> n \<and> n \<le> 122) \<or> (224 \<le> n \<and> n \<le> 246) \<or> (248 \<le> n \<and> n \<le> 254)
     then char_of (n - 32) else c)"

text \<open>\<open>str.lower\<close>.\<close>

definition lower :: "string \<Rightarrow> string" where
  "lower s = map lower_char s"

text \<open>
  \<open>str.title\<close>: a cased character that follows an uncased one (or starts the string) is
  upper-cased, every other cased character is lower-cased.
\<close>

fun title_from :: "bool \<Rightarrow> string \<Rightarrow> string" where
  "title_from prev_cased [] = []"
| "title_from prev_cased (c # cs) =
     (if prev_cased then lower_char c else upper_char c) # title_from (iscased c) cs"

definition title :: "string \<Rightarrow> string" where
  "title s = title_from False s"

text \<open>\<open>str.strip\<close> with no argument: white space removed at both ends.\<close>

definition strip :: "string \<Rightarrow> string" where
  "strip s = rev (dropWhile isspace (rev (dropWhile isspace s)))"

text \<open>\<open>str.split\<close> with no argument: the maximal runs of characters that are not white space.\<close>

fun split_from :: "string \<Rightarrow> string \<Rightarrow> string list" where
  "split_from cur [] = (if cur = [] then [] else [rev cur])"
| "split_from cur (c # cs) =
     (if isspace c then (if cur = [] then split_from [] cs else rev cur # split_from [] cs)
      else split_from (c # cur) cs)"

definition split_ws :: "string \<Rightarrow> string list" where
  "split_ws s = split_from [] s"

text \<open>\<open>s.startswith(k)\<close>, \<open>s.endswith(k)\<close> and the substring test \<open>k in s\<close>.\<close>

fun startswith :: "string \<Rightarrow> string \<Rightarrow> bool" where
  "startswith s [] = True"
| "startswith [] (k # ks) = False"
| "startswith (c # cs) (k # ks) = (c = k \<and> startswith cs ks)"

definition endswith :: "string \<Rightarrow> string \<Rightarrow> bool" where
  "endswith s k = startswith (rev s) (rev k)"

fun str_contains :: "string \<Rightarrow> string \<Rightarrow> bool" where
  "str_contains [] k = (k = [])"
| "str_contains (c # cs) k = (startswith (c # cs) k \<or> str_contains cs k)"

text \<open>
  A slice \<open>s[a:b]\<close> with Python's index rules: a negative index counts from the end, and
  both indices are clipped to the string.
\<close>

definition clip_index :: "nat \<Rightarrow> int \<Rightarrow> nat" where
  "clip_index n i = (if i < 0 then nat (max 0 (int n + i)) else min n (nat i))"

definition py_slice :: "string \<Rightarrow> int \<Rightarrow> int \<Rightarrow> string" where
  "py_slice s a b = drop (clip_index (length s) a) (take (clip_index (length s) b) s)"

text \<open>The prefix \<open>s[:n]\<close> for a literal \<open>n \<ge> 0\<close>.\<close>

definition py_prefix :: "string \<Rightarrow> nat \<Rightarrow> string" where
  "py_prefix s n = take n s"

section \<open>Regular expressions\<close>

text \<open>
  The patterns of the parser use literals, character classes, the classes \<open>\d\<close>,
  \<open>\s\<close> and \<open>\w\<close>, the word boundary \<open>\b\<close>, sequence, alternation,
  optional groups, one capturing group, and greedy or lazy repetition of a single
  character class. \<open>re\<close> matches by backtracking: alternatives are tried from left to
  right, a greedy repetition tries the longest run first and a lazy one the shortest,
  and the first way that lets the rest of the pattern match is taken.

  Under \<open>re.IGNORECASE\<close> a letter of the pattern matches a character whose lower-case
  form is that of the letter (\<open>ChI\<close>); the classes are unchanged.
\<close>

datatype citem = Ch char | ChI char | Range char char | Digit | Space | Wordc

datatype re =
    Eps
  | Cls "citem list"
  | Seq re re
  | Alt re re
  | Opt re
  | Rep "citem list" nat "nat option" bool
  | Grp re
  | WordB

fun in_item :: "citem \<Rightarrow> char \<Rightarrow> bool" where
  "in_item (Ch l) c = (c = l)"
| "in_item (ChI l) c = (lower_char c = lower_char l)"
| "in_item (Range lo hi) c = (code lo \<le> code c \<and> code c \<le> code hi)"
| "in_item Digit c = isdecimal c"
| "in_item Space c = isspace c"
| "in_item Wordc c = isword c"

fun in_cls :: "citem list \<Rightarrow> char \<Rightarrow> bool" where
  "in_cls [] c = False"
| "in_cls (i # is) c = (in_item i c \<or> in_cls is c)"

text \<open>The first candidate on which \<open>f\<close> succeeds.\<close>

fun first_some :: "('a \<Rightarrow> 'b option) \<Rightarrow> 'a list \<Rightarrow> 'b option" where
  "first_some f [] = None"
| "first_some f (x # xs) = (case f x of Some y \<Rightarrow> Some y | None \<Rightarrow> first_some f xs)"

text \<open>The number of characters from position \<open>i\<close> on that are in the class.\<close>

definition run_length :: "string \<Rightarrow> citem list \<Rightarrow> nat \<Rightarrow> nat" where
  "run_length t cs i = length (takeWhile (in_cls cs) (drop i t))"

definition at_boundary :: "string \<Rightarrow> nat \<Rightarrow> bool" where
  "at_boundary t i =
     ((0 < i \<and> i \<le> length t \<and> isword (t ! (i - 1))) \<noteq> (i < length t \<and> isword (t ! i)))"

text \<open>
  A matcher state is the current position in the text and the span of group 1, if the
  group has matched. \<open>rmatch t r k s\<close> matches \<open>r\<close> at the state \<open>s\<close> and hands
  every state it can reach to the continuation \<open>k\<close> (the rest of the pattern), in the
  order of the backtracking search, until \<open>k\<close> succeeds.
\<close>

type_synonym mstate = "nat \<times> (nat \<times> nat) option"

primrec rmatch :: "string \<Rightarrow> re \<Rightarrow> (mstate \<Rightarrow> 'a option) \<Rightarrow> mstate \<Rightarrow> 'a option" where
  "rmatch t Eps k s = k s"
| "rmatch t (Cls cs) k s =
     (if fst s < length t \<and> in_cls cs (t ! fst s) then k (Suc (fst s), snd s) else None)"
| "rmatch t (Seq a b) k s = rmatch t a (rmatch t b k) s"
| "rmatch t (Alt a b) k s =
     (case rmatch t a k s of Some y \<Rightarrow> Some y | None \<Rightarrow> rmatch t b k s)"
| "rmatch t (Opt a) k s =
     (case rmatch t a k s of Some y \<Rightarrow> Some y | None \<Rightarrow> k s)"
| "rmatch t (Rep cs lo hi greedy) k s =
     (let n = (case hi of None \<Rightarrow> run_length t cs (fst s)
                        | Some h \<Rightarrow> min h (run_length t cs (fst s)));
          counts = (if greedy then rev [lo..<Suc n] else [lo..<Suc n])
      in first_some (\<lambda>j. k (fst s + j, snd s)) counts)"
| "rmatch t (Grp a) k s =
     rmatch t a (\<lambda>s'. k (fst s', Some (fst s, fst s'))) s"
| "rmatch t WordB k s = (if at_boundary t (fst s) then k s else None)"

text \<open>
  A match object: \<open>m.start()\<close>, \<open>m.end()\<close> and the span of group 1.
\<close>

record rmatch_obj =
  m_start :: nat
  m_end :: nat
  m_group1 :: "(nat \<times> nat) option"

text \<open>
  A match that starts exactly at position \<open>i\<close>. With \<open>must_advance\<close> set, an empty
  match is refused: the iterating functions set it after an empty match so that the next
  match at the same position is not empty again.
\<close>

definition match_at :: "re \<Rightarrow> string \<Rightarrow> bool \<Rightarrow> nat \<Rightarrow> rmatch_obj option" where
  "match_at r t must_advance i =
     rmatch t r (\<lambda>s. if must_advance \<and> fst s = i then None
                       else Some \<lparr>m_start = i, m_end = fst s, m_group1 = snd s\<rparr>) (i, None)"

text \<open>
  The search of \<open>re\<close> from position \<open>pos\<close>: the start positions are tried from left to
  right, up to and including the end of the text; \<open>must_advance\<close> only concerns the
  first of them.
\<close>

definition search_from :: "re \<Rightarrow> string \<Rightarrow> nat \<Rightarrow> bool \<Rightarrow> rmatch_obj option" where
  "search_from r t pos must_advance =
     first_some (\<lambda>i. match_at r t (must_advance \<and> i = pos) i) [pos..<Suc (length t)]"

text \<open>\<open>re.search(pattern, text)\<close>.\<close>

definition re_search :: "re \<Rightarrow> string \<Rightarrow> rmatch_obj option" where
  "re_search r t = search_from r t 0 False"

text \<open>\<open>m.group()\<close> and \<open>m.group(1)\<close>; the latter is \<open>None\<close> when group 1 took no part.\<close>

definition group0 :: "string \<Rightarrow> rmatch_obj \<Rightarrow> string" where
  "group0 t m = drop (m_start m) (take (m_end m) t)"

definition group1 :: "string \<Rightarrow> rmatch_obj \<Rightarrow> string option" where
  "group1 t m = (case m_group1 m of None \<Rightarrow> None | Some (a, b) \<Rightarrow> Some (drop a (take b t)))"

text \<open>
  The successive matches that \<open>re.finditer\<close> and \<open>re.split\<close> walk through: each
  search starts where the previous match ended. The guard of the recursive call holds
  for every result of \<open>search_from\<close> (lemma \<open>search_from_guard\<close>); it is written out
  so that the recursion is seen to terminate.
\<close>

function matches_from :: "re \<Rightarrow> string \<Rightarrow> nat \<Rightarrow> bool \<Rightarrow> rmatch_obj list" where
  "matches_from r t pos must_advance =
     (case search_from r t pos must_advance of
        None \<Rightarrow> []
      | Some m \<Rightarrow>
          m # (if pos \<le> m_end m \<and> m_end m \<le> length t \<and>
                  (pos < m_end m \<or> (m_end m = m_start m \<and> \<not> must_advance))
               then matches_from r t (m_end m) (m_end m = m_start m) else []))"
  by pat_completeness auto
termination
  by (relation "measure (\<lambda>(r, t, pos, must). 2 * (length t - pos) + (if must then 0 else 1))")
     auto

definition re_finditer :: "re \<Rightarrow> string \<Rightarrow> rmatch_obj list" where
  "re_finditer r t = matches_from r t 0 False"

text \<open>
  \<open>re.split\<close> for a pattern without groups: the pieces of the text between the
  successive matches.
\<close>

fun pieces :: "string \<Rightarrow> nat \<Rightarrow> rmatch_obj list \<Rightarrow> string list" where
  "pieces t prev [] = [drop prev t]"
| "pieces t prev (m # ms) = drop prev (take (m_start m) t) # pieces t (m_end m) ms"

definition re_split :: "re \<Rightarrow> string \<Rightarrow> string list" where
  "re_split r t = pieces t 0 (re_finditer r t)"

text \<open>Building patterns: a literal string, with and without \<open>re.IGNORECASE\<close>.\<close>

definition lit :: "string \<Rightarrow> re" where
  "lit s = foldr (\<lambda>c r. Seq (Cls [Ch c]) r) s Eps"

definition liti :: "string \<Rightarrow> re" where
  "liti s = foldr (\<lambda>c r. Seq (Cls [ChI c]) r) s Eps"

fun alts :: "re list \<Rightarrow> re" where
  "alts [] = Cls []"
| "alts [r] = r"
| "alts (r # rs) = Alt r (alts rs)"

fun seqs :: "re list \<Rightarrow> re" where
  "seqs [] = Eps"
| "seqs [r] = r"
| "seqs (r # rs) = Seq r (seqs rs)"

section \<open>The parser\<close>

subsection \<open>Contact information\<close>

record contact_info =
  email :: "string option"
  phone :: "string option"
  linkedin :: "string option"
  github :: "string option"

text \<open>\<^verbatim>\<open>\b[A-Za-z0-9._%+-]+@[A-Za-z0-9.-]+\.[A-Z|a-z]{2,}\b\<close>\<close>

definition email_pattern :: re where
  "email_pattern = seqs [
     WordB,
     Rep [Range CHR ''A'' CHR ''Z'', Range CHR ''a'' CHR ''z'', Range CHR ''0'' CHR ''9'',
          Ch CHR ''.'', Ch CHR ''_'', Ch CHR ''%'', Ch CHR ''+'', Ch CHR ''-''] 1 None True,
     Cls [Ch CHR ''@''],
     Rep [Range CHR ''A'' CHR ''Z'', Range CHR ''a'' CHR ''z'', Range CHR ''0'' CHR ''9'',
          Ch CHR ''.'', Ch CHR ''-''] 1 None True,
     Cls [Ch CHR ''.''],
     Rep [Range CHR ''A'' CHR ''Z'', Ch CHR ''|'', Range CHR ''a'' CHR ''z''] 2 None True,
     WordB]"

text \<open>The class \<^verbatim>\<open>[-.\s]\<close> and the repetitions \<^verbatim>\<open>\d{n}\<close> of the phone patterns.\<close>

definition sep :: "citem list" where
  "sep = [Ch CHR ''-'', Ch CHR ''.'', Space]"

definition digits :: "nat \<Rightarrow> re" where
  "digits n = Rep [Digit] n (Some n) True"

text \<open>
  \<^verbatim>\<open>\+?\d{1,3}[-.\s]?\(?\d{3}\)?[-.\s]?\d{3}[-.\s]?\d{4}\<close>,
  \<^verbatim>\<open>\(\d{3}\)\s*\d{3}[-.\s]?\d{4}\<close> and
  \<^verbatim>\<open>\d{3}[-.\s]?\d{3}[-.\s]?\d{4}\<close>, in the order of the source.
\<close>

definition phone_patterns :: "re list" where
  "phone_patterns = [
     seqs [Rep [Ch CHR ''+''] 0 (Some 1) True, Rep [Digit] 1 (Some 3) True,
           Rep sep 0 (Some 1) True, Rep [Ch CHR ''(''] 0 (Some 1) True, digits 3,
           Rep [Ch CHR '')''] 0 (Some 1) True, Rep sep 0 (Some 1) True, digits 3,
           Rep sep 0 (Some 1) True, digits 4],
     seqs [Cls [Ch CHR ''(''], digits 3, Cls [Ch CHR '')''], Rep [Space] 0 None True,
           digits 3, Rep sep 0 (Some 1) True, digits 4],
     seqs [digits 3, Rep sep 0 (Some 1) True, digits 3, Rep sep 0 (Some 1) True, digits 4]]"

text \<open>\<^verbatim>\<open>linkedin\.com/in/[\w-]+\<close> and \<^verbatim>\<open>github\.com/[\w-]+\<close>, both with \<open>re.IGNORECASE\<close>.\<close>

definition linkedin_pattern :: re where
  "linkedin_pattern = Seq (liti ''linkedin.com/in/'') (Rep [Wordc, Ch CHR ''-''] 1 None True)"

definition github_pattern :: re where
  "github_pattern = Seq (liti ''github.com/'') (Rep [Wordc, Ch CHR ''-''] 1 None True)"

text \<open>
  The loop over the phone patterns: the first pattern that \<open>re.search\<close> finds anywhere in
  the text gives the phone number, and \<open>break\<close> leaves the loop.
\<close>

fun phone_loop :: "re list \<Rightarrow> string \<Rightarrow> string option" where
  "phone_loop [] text = None"
| "phone_loop (pattern # rest) text =
     (case re_search pattern text of
        Some phone_match \<Rightarrow> Some (group0 text phone_match)
      | None \<Rightarrow> phone_loop rest text)"

definition extract_contact_info :: "string \<Rightarrow> contact_info" where
  "extract_contact_info text = \<lparr>
     email = map_option (group0 text) (re_search email_pattern text),
     phone = phone_loop phone_patterns text,
     linkedin = map_option (group0 text) (re_search linkedin_pattern text),
     github = map_option (group0 text) (re_search github_pattern text)\<rparr>"

subsection \<open>Skills\<close>

definition skills_keywords :: "(string \<times> string list) list" where
  "skills_keywords = [
     (''programming'', [''python'', ''java'', ''javascript'', ''c++'', ''r'', ''sql'', ''c#'']),
     (''data'', [''pandas'', ''numpy'', ''tensorflow'', ''pytorch'', ''spark'', ''hadoop'']),
     (''tools'', [''git'', ''docker'', ''kubernetes'', ''jenkins'', ''aws'', ''azure'', ''gcp'']),
     (''analytics'', [''tableau'', ''power bi'', ''excel'', ''sas'', ''stata'', ''spss'']),
     (''databases'', [''mysql'', ''postgresql'', ''mongodb'', ''redis'', ''oracle'', ''sqlite'']),
     (''methodologies'', [''agile'', ''scrum'', ''kanban'', ''waterfall'', ''devops'', ''ci/cd''])]"

text \<open>The inner and the outer loop of the lexicon pass, adding to the set \<open>skills\<close>.\<close>

fun keyword_loop :: "string \<Rightarrow> string list \<Rightarrow> string set \<Rightarrow> string set" where
  "keyword_loop text_lower [] skills = skills"
| "keyword_loop text_lower (keyword # keywords) skills =
     keyword_loop text_lower keywords
       (if str_contains text_lower keyword then insert (title keyword) skills else skills)"

fun category_loop :: "string \<Rightarrow> (string \<times> string list) list \<Rightarrow> string set \<Rightarrow> string set" where
  "category_loop text_lower [] skills = skills"
| "category_loop text_lower ((category, keywords) # rest) skills =
     category_loop text_lower rest (keyword_loop text_lower keywords skills)"

text \<open>
  The entity pass. The recognizer \<open>self.nlp\<close> is a loaded model, not code of the parser:
  it is a parameter \<open>nlp\<close> that gives, for a text, the entities \<open>doc.ents\<close> as pairs of
  \<open>ent.text\<close> and \<open>ent.label_\<close>.
\<close>

fun entity_loop :: "(string \<times> string) list \<Rightarrow> string set \<Rightarrow> string set" where
  "entity_loop [] skills = skills"
| "entity_loop ((ent_text, ent_label) # ents) skills =
     entity_loop ents
       (if ent_label = ''ORG'' \<or> ent_label = ''PRODUCT''
        then (let potential_skill = strip ent_text
              in if length potential_skill > 2 \<and> length potential_skill < 30
                 then insert potential_skill skills else skills)
        else skills)"

definition skills_set :: "(string \<Rightarrow> (string \<times> string) list) \<Rightarrow> string \<Rightarrow> string set" where
  "skills_set nlp text =
     entity_loop (nlp text) (category_loop (lower text) skills_keywords {})"

text \<open>
  \<open>sorted(list(skills))\<close>. The order in which Python walks through a set of strings is
  not fixed (it depends on the hash seed of the run): \<open>list(skills)\<close> is a parameter
  \<open>set_order\<close>, of which only \<open>enumerates\<close> is known. \<open>sorted\<close> is a stable sort, as
  \<open>sort\<close> is.
\<close>

definition enumerates :: "(string set \<Rightarrow> string list) \<Rightarrow> bool" where
  "enumerates set_order = (\<forall>S. finite S \<longrightarrow> set (set_order S) = S \<and> distinct (set_order S))"

definition extract_skills ::
  "(string set \<Rightarrow> string list) \<Rightarrow> (string \<Rightarrow> (string \<times> string) list) \<Rightarrow> string \<Rightarrow> string list" where
  "extract_skills set_order nlp text = sort (set_order (skills_set nlp text))"

subsection \<open>Education\<close>

record education_entry =
  degree :: string
  details :: string

text \<open>
  \<^verbatim>\<open>(Bachelor|Master|PhD|B\.S\.|M\.S\.|Ph\.D\.|BS|MS)\s+(?:of\s+)?(?:Science|Arts|Engineering|Computer Science|Business|in\s+[\w\s]+)\<close>
  and \<^verbatim>\<open>(Associate|Diploma)\s+(?:of\s+)?[\w\s]+\<close>, both with \<open>re.IGNORECASE\<close>.
\<close>

definition spaces1 :: re where
  "spaces1 = Rep [Space] 1 None True"

definition degree_patterns :: "re list" where
  "degree_patterns = [
     seqs [Grp (alts (map liti [''Bachelor'', ''Master'', ''PhD'', ''B.S.'', ''M.S.'',
                                ''Ph.D.'', ''BS'', ''MS''])),
           spaces1,
           Opt (Seq (liti ''of'') spaces1),
           alts [liti ''Science'', liti ''Arts'', liti ''Engineering'',
                 liti ''Computer Science'', liti ''Business'',
                 seqs [liti ''in'', spaces1, Rep [Wordc, Space] 1 None True]]],
     seqs [Grp (alts [liti ''Associate'', liti ''Diploma'']),
           spaces1,
           Opt (Seq (liti ''of'') spaces1),
           Rep [Wordc, Space] 1 None True]]"

definition extract_education_context :: "string \<Rightarrow> int \<Rightarrow> int \<Rightarrow> string" where
  "extract_education_context text start end =
     (let context_start = max 0 (start - 200);
          context_end = min (int (length text)) (end + 200);
          context = py_slice text context_start context_end
      in strip context)"

definition education_entry_of :: "string \<Rightarrow> rmatch_obj \<Rightarrow> education_entry" where
  "education_entry_of text m = \<lparr>
     degree = group0 text m,
     details = extract_education_context text (int (m_start m)) (int (m_end m))\<rparr>"

text \<open>The loop over the matches of one pattern, and the loop over the patterns.\<close>

fun match_loop :: "string \<Rightarrow> rmatch_obj list \<Rightarrow> education_entry list \<Rightarrow> education_entry list" where
  "match_loop text [] education = education"
| "match_loop text (m # matches) education =
     match_loop text matches (education @ [education_entry_of text m])"

fun degree_loop :: "string \<Rightarrow> re list \<Rightarrow> education_entry list \<Rightarrow> education_entry list" where
  "degree_loop text [] education = education"
| "degree_loop text (pattern # rest) education =
     degree_loop text rest (match_loop text (re_finditer pattern text) education)"

definition extract_education :: "string \<Rightarrow> education_entry list" where
  "extract_education text = degree_loop text degree_patterns []"

subsection \<open>Experience\<close>

record experience_entry =
  section_text :: string
  has_job_title :: bool
  company :: "string option"

text \<open>\<^verbatim>\<open>\n\s*\n\<close>, the separator of sections.\<close>

definition section_break :: re where
  "section_break = seqs [Cls [Ch (CHR 0x0A)], Rep [Space] 0 None True, Cls [Ch (CHR 0x0A)]]"

text \<open>
  \<^verbatim>\<open>(Engineer|Analyst|Developer|Manager|Director|Specialist|Consultant|Coordinator)\<close> and
  \<^verbatim>\<open>(Senior|Junior|Lead|Principal|Staff|Chief)\s+\w+\<close>, both with \<open>re.IGNORECASE\<close>.
\<close>

definition job_title_patterns :: "re list" where
  "job_title_patterns = [
     Grp (alts (map liti [''Engineer'', ''Analyst'', ''Developer'', ''Manager'', ''Director'',
                          ''Specialist'', ''Consultant'', ''Coordinator''])),
     seqs [Grp (alts (map liti [''Senior'', ''Junior'', ''Lead'', ''Principal'', ''Staff'',
                                ''Chief''])),
           spaces1,
           Rep [Wordc] 1 None True]]"

text \<open>
  \<^verbatim>\<open>at\s+([\w\s&,.]+?)(?:\||<bullet>|\n|20\d{2})\<close> with \<open>re.IGNORECASE\<close>, where
  \<^verbatim>\<open><bullet>\<close> is the code point 8226. No character of the model is that code point,
  so this alternative is the empty class.
\<close>

definition company_class :: "citem list" where
  "company_class = [Wordc, Space, Ch CHR ''&'', Ch CHR '','', Ch CHR ''.'']"

definition company_end :: re where
  "company_end = alts [Cls [Ch CHR ''|''], Cls [], Cls [Ch (CHR 0x0A)],
                       Seq (lit ''20'') (digits 2)]"

definition company_pattern :: re where
  "company_pattern = seqs [liti ''at'', spaces1, Grp (Rep company_class 1 None False), company_end]"

definition experience_entry_of :: "string \<Rightarrow> experience_entry" where
  "experience_entry_of section = \<lparr>
     section_text = py_prefix section 200,
     has_job_title = True,
     company = (case re_search company_pattern section of
                  Some company_match \<Rightarrow> group1 section company_match
                | None \<Rightarrow> None)\<rparr>"

text \<open>
  The loop over the job title patterns, for one section: the first pattern found in the
  section appends an entry, and \<open>break\<close> leaves the loop.
\<close>

fun title_loop :: "re list \<Rightarrow> string \<Rightarrow> experience_entry list \<Rightarrow> experience_entry list" where
  "title_loop [] section experience = experience"
| "title_loop (pattern # rest) section experience =
     (if re_search pattern section \<noteq> None
      then experience @ [experience_entry_of section]
      else title_loop rest section experience)"

fun section_loop :: "string list \<Rightarrow> experience_entry list \<Rightarrow> experience_entry list" where
  "section_loop [] experience = experience"
| "section_loop (section # sections) experience =
     section_loop sections (title_loop job_title_patterns section experience)"

definition extract_experience :: "string \<Rightarrow> experience_entry list" where
  "extract_experience text = take 5 (section_loop (re_split section_break text) [])"

subsection \<open>Reading the document and assembling the result\<close>

datatype exn = FileNotFoundError | PermissionError | UnicodeDecodeError | PdfReadError
  | OtherException string

text \<open>
  \<open>exn\<close> stands for the exceptions derived from \<open>Exception\<close>, the ones that
  \<open>except Exception\<close> catches.
  What lies outside the parser: opening a PDF gives an exception or its pages, and
  \<open>extract_text\<close> of a page gives an exception or a text; reading a text file as UTF-8
  gives an exception or its content; the recognizer; the order of \<open>list(skills)\<close>.
\<close>

record world =
  pdf_pages :: "string \<Rightarrow> exn + (exn + string) list"
  read_utf8 :: "string \<Rightarrow> exn + string"
  nlp :: "string \<Rightarrow> (string \<times> string) list"
  set_order :: "string set \<Rightarrow> string list"

record parsed_resume =
  raw_text :: string
  contact :: contact_info
  skills :: "string list"
  education :: "education_entry list"
  experience :: "experience_entry list"
  word_count :: int
  parsed_successfully :: bool

text \<open>The loop \<open>text += page.extract_text()\<close>; an exception ends it.\<close>

fun page_loop :: "(exn + string) list \<Rightarrow> string \<Rightarrow> exn + string" where
  "page_loop [] text = Inr text"
| "page_loop (page # pages) text =
     (case page of Inl e \<Rightarrow> Inl e | Inr page_text \<Rightarrow> page_loop pages (text @ page_text))"

text \<open>The body of the \<open>try\<close> block, and the function with its \<open>except Exception\<close>.\<close>

definition pdf_try :: "world \<Rightarrow> string \<Rightarrow> exn + string" where
  "pdf_try w pdf_path =
     (case pdf_pages w pdf_path of Inl e \<Rightarrow> Inl e | Inr pages \<Rightarrow> page_loop pages [])"

definition extract_text_from_pdf :: "world \<Rightarrow> string \<Rightarrow> string" where
  "extract_text_from_pdf w pdf_path =
     (case pdf_try w pdf_path of Inl e \<Rightarrow> [] | Inr text \<Rightarrow> text)"

definition parsed_data :: "world \<Rightarrow> string \<Rightarrow> parsed_resume" where
  "parsed_data w text = \<lparr>
     raw_text = text,
     contact = extract_contact_info text,
     skills = extract_skills (set_order w) (nlp w) text,
     education = extract_education text,
     experience = extract_experience text,
     word_count = int (length (split_ws text)),
     parsed_successfully = True\<rparr>"

definition parse :: "world \<Rightarrow> string \<Rightarrow> exn + parsed_resume" where
  "parse w file_path =
     (if endswith file_path ''.pdf''
      then Inr (parsed_data w (extract_text_from_pdf w file_path))
      else (case read_utf8 w file_path of
              Inl e \<Rightarrow> Inl e
            | Inr text \<Rightarrow> Inr (parsed_data w text)))"

section \<open>Descriptions used in the statements\<close>

subsection \<open>Skills\<close>

text \<open>
  The keywords of all categories, the title-cased keywords found in a lower-cased text,
  and the entities that the entity pass keeps.
\<close>

definition all_keywords :: "string list" where
  "all_keywords = concat (map snd skills_keywords)"

definition lexicon_hits :: "string \<Rightarrow> string list \<Rightarrow> string set" where
  "lexicon_hits tx ks = title ` {k \<in> set ks. str_contains tx k}"

definition entity_skills :: "(string \<times> string) list \<Rightarrow> string set" where
  "entity_skills ents = {strip e |e l. (e, l) \<in> set ents \<and> (l = ''ORG'' \<or> l = ''PRODUCT'')
      \<and> 2 < length (strip e) \<and> length (strip e) < 30}"

subsection \<open>What a pattern matches\<close>


primrec min_len :: "re \<Rightarrow> nat" where
  "min_len Eps = 0"
| "min_len (Cls cs) = 1"
| "min_len (Seq a b) = min_len a + min_len b"
| "min_len (Alt a b) = min (min_len a) (min_len b)"
| "min_len (Opt a) = 0"
| "min_len (Rep cs lo hi greedy) = lo"
| "min_len (Grp a) = min_len a"
| "min_len WordB = 0"


subsection \<open>Experience\<close>

text \<open>
  A section qualifies when one of the job title patterns is found in it. The spans of the
  sections are the gaps between the successive matches of the separator.
\<close>

definition qualifies :: "string \<Rightarrow> bool" where
  "qualifies section = list_ex (\<lambda>p. re_search p section \<noteq> None) job_title_patterns"

fun gaps :: "nat \<Rightarrow> rmatch_obj list \<Rightarrow> nat \<Rightarrow> (nat \<times> nat) list" where
  "gaps prev [] n = [(prev, n)]"
| "gaps prev (m # ms) n = (prev, m_start m) # gaps (m_end m) ms n"

definition section_spans :: "string \<Rightarrow> (nat \<times> nat) list" where
  "section_spans t = gaps 0 (re_finditer section_break t) (length t)"


subsection \<open>Education\<close>

text \<open>
  The matches behind the education entries, in the order in which the entries are
  appended, and the window of a span: up to 200 characters before it, the span, and up to
  200 characters after it.
\<close>

definition education_matches :: "string \<Rightarrow> rmatch_obj list" where
  "education_matches text = concat (map (\<lambda>p. re_finditer p text) degree_patterns)"

definition context_window :: "string \<Rightarrow> nat \<Rightarrow> nat \<Rightarrow> string" where
  "context_window text s e =
     drop (s - min 200 s) (take s text) @ drop s (take e text) @
     take (min 200 (length text - e)) (drop e text)"

subsection \<open>Sample inputs\<close>

text \<open>A sample recognizer and two sample worlds that differ in the order of a set only.\<close>

definition sample_entities :: "string \<Rightarrow> (string \<times> string) list" where
  "sample_entities t =
     (if t = [] then [] else [(''Acme Corp '', ''ORG''), (''x'', ''ORG''), (''Zed'', ''GPE'')])"

definition sample_world :: world where
  "sample_world = \<lparr>
     pdf_pages = (\<lambda>p. if p = ''cv.pdf'' then Inr [Inr ''Senior'', Inl PdfReadError]
                      else Inl FileNotFoundError),
     read_utf8 = (\<lambda>p. if p = ''cv.txt'' then Inr ''AWS and aws, Docker''
                      else Inl UnicodeDecodeError),
     nlp = sample_entities,
     set_order = sorted_list_of_set\<rparr>"

definition sample_world_rev :: world where
  "sample_world_rev = sample_world\<lparr>set_order := \<lambda>S. rev (sorted_list_of_set S)\<rparr>"

text \<open>
  Seven sections separated by blank lines, each with a job title (the first one is found
  by both job title patterns); two degrees, the diploma first; a degree with more than 200
  characters on either side; a section without the word \<open>at\<close>.
\<close>

definition seven_sections :: string where
  "seven_sections =
     ''Senior Engineer'' @ concat (replicate 6 ([CHR 0x0A, CHR 0x0A] @ ''Engineer''))"

definition two_degrees :: string where
  "two_degrees = ''Diploma of Arts. Bachelor of Science''"

definition dotted_degree :: string where
  "dotted_degree = replicate 210 CHR ''.'' @ ''  MS in Data'' @ replicate 210 CHR ''.''"


section \<open>Properties of the string functions and of the skills extractor\<close>

lemma startswith_iff: "startswith s k \<longleftrightarrow> (\<exists>ss. s = k @ ss)"
  by (induction s k rule: startswith.induct) auto

lemma str_contains_iff: "str_contains s k \<longleftrightarrow> (\<exists>ps ss. s = ps @ k @ ss)"
proof (induction s)
  case Nil
  then show ?case by auto
next
  case (Cons c cs)
  show ?case
  proof
    assume "str_contains (c # cs) k"
    then consider "startswith (c # cs) k" | "str_contains cs k" by auto
    then show "\<exists>ps ss. c # cs = ps @ k @ ss"
    proof cases
      case 1
      then obtain ss where "c # cs = k @ ss" using startswith_iff by blast
      then have "c # cs = [] @ k @ ss" by simp
      then show ?thesis by blast
    next
      case 2
      then obtain ps ss where "cs = ps @ k @ ss" using Cons.IH by blast
      then have "c # cs = (c # ps) @ k @ ss" by simp
      then show ?thesis by blast
    qed
  next
    assume "\<exists>ps ss. c # cs = ps @ k @ ss"
    then obtain ps ss where eq: "c # cs = ps @ k @ ss" by blast
    show "str_contains (c # cs) k"
    proof (cases ps)
      case Nil
      with eq have "startswith (c # cs) k" using startswith_iff by auto
      then show ?thesis by simp
    next
      case (Cons p ps')
      with eq have "cs = ps' @ k @ ss" by simp
      then have "str_contains cs k" using Cons.IH by blast
      then show ?thesis by simp
    qed
  qed
qed

lemma str_contains_lower: "str_contains s k \<Longrightarrow> str_contains (lower s) (lower k)"
  unfolding str_contains_iff lower_def by (metis map_append)

lemma str_contains_char: "c \<in> set s \<Longrightarrow> str_contains s [c]"
  unfolding str_contains_iff by (metis append_Cons append_Nil split_list)

lemma lexicon_hits_Nil: "lexicon_hits tx [] = {}"
  by (simp add: lexicon_hits_def)

lemma lexicon_hits_Cons:
  "lexicon_hits tx (k # ks) =
     (if str_contains tx k then insert (title k) (lexicon_hits tx ks) else lexicon_hits tx ks)"
  unfolding lexicon_hits_def by auto

lemma lexicon_hits_append: "lexicon_hits tx (xs @ ys) = lexicon_hits tx xs \<union> lexicon_hits tx ys"
  unfolding lexicon_hits_def by auto

lemma keyword_loop_set: "keyword_loop tx ks S = S \<union> lexicon_hits tx ks"
  by (induction ks arbitrary: S) (simp_all add: lexicon_hits_Nil lexicon_hits_Cons)

lemma category_loop_set:
  "category_loop tx cats S = S \<union> lexicon_hits tx (concat (map snd cats))"
proof (induction cats arbitrary: S)
  case Nil
  show ?case by (simp add: lexicon_hits_Nil)
next
  case (Cons p cats)
  obtain c ks where p: "p = (c, ks)" by (cases p)
  show ?case unfolding p
    by (simp add: Cons.IH keyword_loop_set lexicon_hits_append Un_assoc)
qed

lemma entity_skills_Nil: "entity_skills [] = {}"
  by (simp add: entity_skills_def)

lemma entity_skills_Cons:
  "entity_skills ((e, l) # ents) =
     (if (l = ''ORG'' \<or> l = ''PRODUCT'') \<and> 2 < length (strip e) \<and> length (strip e) < 30
      then insert (strip e) (entity_skills ents) else entity_skills ents)"
  unfolding entity_skills_def by (rule set_eqI) (simp, blast)

lemma entity_loop_set: "entity_loop ents S = S \<union> entity_skills ents"
proof (induction ents arbitrary: S)
  case Nil
  show ?case by (simp add: entity_skills_Nil)
next
  case (Cons p ents)
  obtain e l where p: "p = (e, l)" by (cases p)
  show ?case unfolding p by (simp add: Cons.IH entity_skills_Cons Let_def)
qed

lemma skills_set_eq:
  "skills_set ner text = lexicon_hits (lower text) all_keywords \<union> entity_skills (ner text)"
  by (simp add: skills_set_def entity_loop_set category_loop_set all_keywords_def)

lemma finite_lexicon_hits: "finite (lexicon_hits tx ks)"
  by (simp add: lexicon_hits_def)

lemma finite_entity_skills: "finite (entity_skills ents)"
proof (induction ents)
  case Nil
  show ?case by (simp add: entity_skills_Nil)
next
  case (Cons p ents)
  obtain e l where p: "p = (e, l)" by (cases p)
  show ?case unfolding p entity_skills_Cons using Cons.IH by simp
qed

lemma finite_skills_set: "finite (skills_set ner text)"
  unfolding skills_set_eq by (simp add: finite_lexicon_hits finite_entity_skills)

lemma distinct_count_list: "distinct xs \<Longrightarrow> x \<in> set xs \<Longrightarrow> count_list xs x = 1"
  by (induction xs) (auto simp: count_list_0_iff)

lemma title_aws: "title ''aws'' = ''Aws''"
  by code_simp

lemma title_r: "title ''r'' = ''R''"
  by code_simp

lemma lower_AWS: "lower ''AWS'' = ''aws''"
  by code_simp

lemma aws_keyword: "''aws'' \<in> set all_keywords" 
  by (simp add: all_keywords_def skills_keywords_def)

lemma r_keyword: "''r'' \<in> set all_keywords" 
  by (simp add: all_keywords_def skills_keywords_def)

lemma lower_char_r: "lower_char CHR ''R'' = CHR ''r''" "lower_char CHR ''r'' = CHR ''r''"
  by code_simp+

lemma enumerates_sorted: "enumerates sorted_list_of_set"
  by (simp add: enumerates_def)

lemma enumerates_rev: "enumerates (\<lambda>S. rev (sorted_list_of_set S))"
  by (simp add: enumerates_def)

text \<open>
  C1. Whatever the order in which the set of skills is walked through, the list of skills
  is sorted in ascending order and has no duplicates; its elements are the title-cased
  forms of the keywords found in the lower-cased text, and the trimmed entities kept by the
  entity pass. A keyword is found in whatever case it is written in the text. A text that
  contains both \<open>aws\<close> and \<open>AWS\<close> gives exactly one entry \<open>Aws\<close>.
\<close>

theorem extract_skills_spec:
  assumes "enumerates so"
  shows "sorted (extract_skills so ner text)
    \<and> distinct (extract_skills so ner text)
    \<and> set (extract_skills so ner text) =
        lexicon_hits (lower text) all_keywords \<union> entity_skills (ner text)
    \<and> (\<forall>k v. k \<in> set all_keywords \<and> lower v = k \<and> str_contains text v
          \<longrightarrow> title k \<in> set (extract_skills so ner text))
    \<and> (str_contains text ''aws'' \<and> str_contains text ''AWS''
          \<longrightarrow> count_list (extract_skills so ner text) ''Aws'' = 1)"
proof -
  let ?S = "skills_set ner text"
  let ?r = "extract_skills so ner text"
  from assms finite_skills_set have en: "set (so ?S) = ?S" "distinct (so ?S)"
    unfolding enumerates_def by blast+
  have s: "sorted ?r" by (simp add: extract_skills_def)
  have d: "distinct ?r" using en by (simp add: extract_skills_def)
  have e: "set ?r = ?S" using en by (simp add: extract_skills_def)
  have ci: "title k \<in> set ?r"
    if "k \<in> set all_keywords" "lower v = k" "str_contains text v" for k v
  proof -
    have "str_contains (lower text) k" using that str_contains_lower by blast
    then have "title k \<in> lexicon_hits (lower text) all_keywords"
      using that(1) by (simp add: lexicon_hits_def)
    then show ?thesis unfolding e skills_set_eq by simp
  qed
  have c: "count_list ?r ''Aws'' = 1" if "str_contains text ''AWS''"
  proof -
    have "title ''aws'' \<in> set ?r" using ci[OF aws_keyword lower_AWS that] .
    then have "''Aws'' \<in> set ?r" unfolding title_aws .
    with d show ?thesis by (rule distinct_count_list)
  qed
  have e': "set ?r = lexicon_hits (lower text) all_keywords \<union> entity_skills (ner text)"
    using e skills_set_eq by simp
  show ?thesis
    apply (intro conjI allI impI)
    subgoal by (rule s)
    subgoal by (rule d)
    subgoal by (rule e')
    subgoal for k v using ci by blast
    subgoal using c by blast
    done
qed

theorem extract_skills_spec_witness:
  "enumerates (\<lambda>S. rev (sorted_list_of_set S))
   \<and> str_contains ''AWS and aws, Docker'' ''aws'' \<and> str_contains ''AWS and aws, Docker'' ''AWS''
   \<and> count_list (extract_skills (\<lambda>S. rev (sorted_list_of_set S)) sample_entities
         ''AWS and aws, Docker'') ''Aws'' = 1
   \<and> extract_skills (\<lambda>S. rev (sorted_list_of_set S)) sample_entities ''AWS and aws, Docker''
       = [''Acme Corp'', ''Aws'', ''Docker'', ''R'']"
proof -
  have h: "enumerates (\<lambda>S. rev (sorted_list_of_set S))" by (rule enumerates_rev)
  have c: "str_contains ''AWS and aws, Docker'' ''aws'' \<and> str_contains ''AWS and aws, Docker'' ''AWS''"
    by code_simp
  have v: "extract_skills (\<lambda>S. rev (sorted_list_of_set S)) sample_entities ''AWS and aws, Docker''
       = [''Acme Corp'', ''Aws'', ''Docker'', ''R'']"
    by code_simp
  from extract_skills_spec[OF h, of sample_entities "''AWS and aws, Docker''"] c
  have "count_list (extract_skills (\<lambda>S. rev (sorted_list_of_set S)) sample_entities
         ''AWS and aws, Docker'') ''Aws'' = 1" by blast
  with h c v show ?thesis by blast
qed

lemma lower_char_in: "c \<in> set s \<Longrightarrow> lower_char c \<in> set (lower s)"
  by (simp add: lower_def)

text \<open>
  C10. The lexicon has the keyword \<open>r\<close>, and the test is containment in the lower-cased
  text: every text with the character \<open>r\<close> or \<open>R\<close> anywhere, also inside a word, has the
  entry \<open>R\<close> in its list of skills.
\<close>

theorem single_letter_r:
  assumes "enumerates so" and "CHR ''r'' \<in> set text \<or> CHR ''R'' \<in> set text"
  shows "''R'' \<in> set (extract_skills so ner text)"
proof -
  from assms(1) finite_skills_set have en: "set (so (skills_set ner text)) = skills_set ner text"
    unfolding enumerates_def by blast
  have "CHR ''r'' \<in> set (lower text)"
  proof (rule disjE[OF assms(2)])
    assume "CHR ''r'' \<in> set text"
    from lower_char_in[OF this] show ?thesis by (simp only: lower_char_r)
  next
    assume "CHR ''R'' \<in> set text"
    from lower_char_in[OF this] show ?thesis by (simp only: lower_char_r)
  qed
  then have "str_contains (lower text) ''r''" by (rule str_contains_char)
  then have "title ''r'' \<in> lexicon_hits (lower text) all_keywords"
    using r_keyword by (simp add: lexicon_hits_def)
  then have "''R'' \<in> skills_set ner text"
    unfolding skills_set_eq title_r by simp
  then show ?thesis using en by (simp add: extract_skills_def)
qed

theorem single_letter_r_witness:
  "enumerates sorted_list_of_set
   \<and> (CHR ''r'' \<in> set ''Docker'' \<or> CHR ''R'' \<in> set ''Docker'')
   \<and> ''R'' \<in> set (extract_skills sorted_list_of_set sample_entities ''Docker'')"
proof -
  have h: "enumerates sorted_list_of_set" by (rule enumerates_sorted)
  have c: "CHR ''r'' \<in> set ''Docker'' \<or> CHR ''R'' \<in> set ''Docker''" by simp
  from single_letter_r[OF h c, of sample_entities] h c show ?thesis by blast
qed

section \<open>Properties of reading and assembling\<close>

lemma enumerates_sort_unique:
  assumes "enumerates f" "enumerates g" "finite S"
  shows "sort (f S) = sort (g S)"
proof -
  from assms have "set (f S) = S" "distinct (f S)" "set (g S) = S" "distinct (g S)"
    unfolding enumerates_def by blast+
  then have "set (sort (f S)) = set (sort (g S))" "distinct (sort (f S))" "distinct (sort (g S))"
    by simp_all
  then show ?thesis
    using sorted_distinct_set_unique[of "sort (f S)" "sort (g S)"] by simp
qed

lemma extract_skills_order_free:
  "enumerates f \<Longrightarrow> enumerates g \<Longrightarrow> extract_skills f ner t = extract_skills g ner t"
  unfolding extract_skills_def by (rule enumerates_sort_unique) (simp_all add: finite_skills_set)

text \<open>
  C9. \<open>parse\<close> is a function of the document, of the recognizer and of nothing else: two
  runs that read the same files and use the same recognizer return the same result, field
  for field, also when the two runs walk through the set of skills in different orders.
\<close>

theorem parse_deterministic:
  assumes "enumerates (set_order w)" and "enumerates (set_order w')"
    and "pdf_pages w' = pdf_pages w" and "read_utf8 w' = read_utf8 w" and "nlp w' = nlp w"
  shows "parse w' p = parse w p"
proof -
  have d: "parsed_data w' t = parsed_data w t" for t
    unfolding parsed_data_def
    using extract_skills_order_free[OF assms(2) assms(1)] assms(5) by simp
  have "extract_text_from_pdf w' p = extract_text_from_pdf w p"
    by (simp add: extract_text_from_pdf_def pdf_try_def assms(3))
  then show ?thesis unfolding parse_def by (simp add: d assms(4) split: sum.splits)
qed

theorem parse_deterministic_witness:
  "enumerates (set_order sample_world) \<and> enumerates (set_order sample_world_rev)
   \<and> set_order sample_world_rev {''Aws'', ''R''} \<noteq> set_order sample_world {''Aws'', ''R''}
   \<and> parse sample_world_rev ''cv.txt'' = parse sample_world ''cv.txt''"
proof -
  have h: "enumerates (set_order sample_world)"
    by (simp add: sample_world_def enumerates_sorted)
  have h': "enumerates (set_order sample_world_rev)"
    by (simp add: sample_world_rev_def enumerates_rev)
  have d: "set_order sample_world_rev {''Aws'', ''R''} \<noteq> set_order sample_world {''Aws'', ''R''}"
    by code_simp
  have "parse sample_world_rev ''cv.txt'' = parse sample_world ''cv.txt''"
    by (rule parse_deterministic[OF h h']) (simp_all add: sample_world_rev_def)
  with h h' d show ?thesis by blast
qed

lemma page_loop_fails: "Inl e \<in> set pages \<Longrightarrow> \<exists>e'. page_loop pages t = Inl e'"
proof (induction pages arbitrary: t)
  case Nil
  then show ?case by simp
next
  case (Cons page pages)
  show ?case
  proof (cases page)
    case (Inl a)
    then show ?thesis by simp
  next
    case (Inr s)
    with Cons.prems have "Inl e \<in> set pages" by auto
    from Cons.IH[OF this] Inr show ?thesis by simp
  qed
qed

text \<open>
  C7. When opening the PDF raises, or \<open>extract_text\<close> raises on one of its pages, the text
  extractor returns the empty string, and \<open>parse\<close> of a path ending in \<open>.pdf\<close> returns the
  record built from the empty text. When the path does not end in \<open>.pdf\<close> and reading
  the file raises, \<open>parse\<close> raises the same exception.
\<close>

theorem pdf_failure_is_caught:
  "((pdf_pages w p = Inl e \<or> (\<exists>pages. pdf_pages w p = Inr pages \<and> Inl e \<in> set pages))
      \<longrightarrow> extract_text_from_pdf w p = [] \<and>
          (endswith p ''.pdf'' \<longrightarrow> parse w p = Inr (parsed_data w [])))
   \<and> (\<not> endswith p ''.pdf'' \<and> read_utf8 w p = Inl e \<longrightarrow> parse w p = Inl e)"
proof (intro conjI impI)
  assume a: "pdf_pages w p = Inl e \<or> (\<exists>pages. pdf_pages w p = Inr pages \<and> Inl e \<in> set pages)"
  have "\<exists>e'. pdf_try w p = Inl e'"
  proof (rule disjE[OF a])
    assume "pdf_pages w p = Inl e"
    then show ?thesis by (simp add: pdf_try_def)
  next
    assume "\<exists>pages. pdf_pages w p = Inr pages \<and> Inl e \<in> set pages"
    then obtain pages where pg: "pdf_pages w p = Inr pages" "Inl e \<in> set pages" by blast
    from page_loop_fails[OF pg(2)] pg(1) show ?thesis by (simp add: pdf_try_def)
  qed
  then show t: "extract_text_from_pdf w p = []"
    by (auto simp: extract_text_from_pdf_def)
  assume "endswith p ''.pdf''"
  then show "parse w p = Inr (parsed_data w [])" by (simp add: parse_def t)
next
  assume "\<not> endswith p ''.pdf'' \<and> read_utf8 w p = Inl e"
  then show "parse w p = Inl e" by (simp add: parse_def)
qed

theorem pdf_failure_is_caught_witness:
  "pdf_pages sample_world ''cv.pdf'' = Inr [Inr ''Senior'', Inl PdfReadError]
   \<and> extract_text_from_pdf sample_world ''cv.pdf'' = []
   \<and> endswith ''cv.pdf'' ''.pdf''
   \<and> parse sample_world ''cv.pdf'' = Inr (parsed_data sample_world [])
   \<and> pdf_pages sample_world ''x.pdf'' = Inl FileNotFoundError
   \<and> extract_text_from_pdf sample_world ''x.pdf'' = []
   \<and> \<not> endswith ''notes.txt'' ''.pdf''
   \<and> read_utf8 sample_world ''notes.txt'' = Inl UnicodeDecodeError
   \<and> parse sample_world ''notes.txt'' = Inl UnicodeDecodeError"
proof -
  have a: "pdf_pages sample_world ''cv.pdf'' = Inr [Inr ''Senior'', Inl PdfReadError]"
    by (simp add: sample_world_def)
  have b: "Inl PdfReadError \<in> set [Inr ''Senior'', Inl PdfReadError :: exn + string]" by simp
  have c: "endswith ''cv.pdf'' ''.pdf''" by code_simp
  have d: "pdf_pages sample_world ''x.pdf'' = Inl FileNotFoundError"
    by (simp add: sample_world_def)
  have e: "\<not> endswith ''notes.txt'' ''.pdf''" by code_simp
  have f: "read_utf8 sample_world ''notes.txt'' = Inl UnicodeDecodeError"
    by (simp add: sample_world_def)
  from pdf_failure_is_caught[of sample_world "''cv.pdf''" PdfReadError] a b c
  have 1: "extract_text_from_pdf sample_world ''cv.pdf'' = []
      \<and> parse sample_world ''cv.pdf'' = Inr (parsed_data sample_world [])" by blast
  from pdf_failure_is_caught[of sample_world "''x.pdf''" FileNotFoundError] d
  have 2: "extract_text_from_pdf sample_world ''x.pdf'' = []" by blast
  from pdf_failure_is_caught[of sample_world "''notes.txt''" UnicodeDecodeError] e f
  have 3: "parse sample_world ''notes.txt'' = Inl UnicodeDecodeError" by blast
  from a c d e f 1 2 3 show ?thesis by blast
qed

lemma contact_empty: "extract_contact_info [] = \<lparr>email = None, phone = None, linkedin = None, github = None\<rparr>"
  by code_simp

lemma education_empty: "extract_education [] = []"
  by code_simp

lemma experience_empty: "extract_experience [] = []"
  by code_simp

lemma hits_empty: "lexicon_hits [] all_keywords = {}"
  by code_simp

lemma skills_empty: "enumerates so \<Longrightarrow> ner [] = [] \<Longrightarrow> extract_skills so ner [] = []"
proof -
  assume a: "enumerates so" "ner [] = []"
  have "skills_set ner [] = {}"
    unfolding skills_set_eq by (simp add: a(2) entity_skills_Nil lower_def hits_empty)
  moreover have "set (so {}) = {}" using a(1) unfolding enumerates_def by blast
  ultimately show ?thesis by (simp add: extract_skills_def)
qed

text \<open>
  C8. Every record that \<open>parse\<close> returns has the flag \<open>parsed_successfully\<close> set. This
  includes the record of the empty text (with a recognizer that finds no entity in it):
  every contact field is \<open>None\<close>, the three lists are empty, the word count is 0, and
  the flag is set all the same.
\<close>

theorem succeeded_always_true:
  "(parse w p = Inr r \<longrightarrow> parsed_successfully r)
   \<and> (enumerates (set_order w) \<and> nlp w [] = [] \<longrightarrow>
        parsed_data w [] = \<lparr>raw_text = [],
          contact = \<lparr>email = None, phone = None, linkedin = None, github = None\<rparr>,
          skills = [], education = [], experience = [], word_count = 0,
          parsed_successfully = True\<rparr>)"
proof (intro conjI impI)
  assume "parse w p = Inr r"
  then show "parsed_successfully r"
    by (auto simp: parse_def parsed_data_def split: if_splits sum.splits)
next
  assume "enumerates (set_order w) \<and> nlp w [] = []"
  then show "parsed_data w [] = \<lparr>raw_text = [],
          contact = \<lparr>email = None, phone = None, linkedin = None, github = None\<rparr>,
          skills = [], education = [], experience = [], word_count = 0,
          parsed_successfully = True\<rparr>"
    by (simp add: parsed_data_def contact_empty education_empty experience_empty skills_empty
        split_ws_def)
qed

theorem succeeded_always_true_witness:
  "parse sample_world ''cv.pdf'' = Inr (parsed_data sample_world [])
   \<and> parsed_successfully (parsed_data sample_world [])
   \<and> enumerates (set_order sample_world) \<and> nlp sample_world [] = []
   \<and> parsed_data sample_world [] = \<lparr>raw_text = [],
          contact = \<lparr>email = None, phone = None, linkedin = None, github = None\<rparr>,
          skills = [], education = [], experience = [], word_count = 0,
          parsed_successfully = True\<rparr>"
proof -
  have c: "endswith ''cv.pdf'' ''.pdf''" by code_simp
  have a: "parse sample_world ''cv.pdf'' = Inr (parsed_data sample_world [])"
    by (simp add: parse_def c extract_text_from_pdf_def pdf_try_def sample_world_def)
  have h: "enumerates (set_order sample_world)"
    by (simp add: sample_world_def enumerates_sorted)
  have n: "nlp sample_world [] = []" by (simp add: sample_world_def sample_entities_def)
  from succeeded_always_true[of sample_world "''cv.pdf''" "parsed_data sample_world []"] a h n
  show ?thesis by blast
qed

section \<open>Properties of the matcher\<close>

declare matches_from.simps [simp del]

lemma first_some_Some: "first_some f xs = Some y \<Longrightarrow> \<exists>x \<in> set xs. f x = Some y"
  by (induction xs) (auto split: option.splits)


lemma first_some_split:
  "first_some f xs = Some y \<Longrightarrow>
     \<exists>ys x zs. xs = ys @ x # zs \<and> (\<forall>u \<in> set ys. f u = None) \<and> f x = Some y"
proof (induction xs)
  case Nil
  then show ?case by simp
next
  case (Cons a xs)
  show ?case
  proof (cases "f a")
    case None
    with Cons.prems have "first_some f xs = Some y" by simp
    from Cons.IH[OF this] obtain ys x zs where
      h: "xs = ys @ x # zs" "\<forall>u \<in> set ys. f u = None" "f x = Some y" by blast
    then have "a # xs = (a # ys) @ x # zs \<and> (\<forall>u \<in> set (a # ys). f u = None) \<and> f x = Some y"
      using None by simp
    then show ?thesis by blast
  next
    case (Some b)
    with Cons.prems have "f a = Some y" by simp
    then have "a # xs = [] @ a # xs \<and> (\<forall>u \<in> set []. f u = None) \<and> f a = Some y" by simp
    then show ?thesis by blast
  qed
qed

lemma run_length_le: "run_length t cs i \<le> length t - i"
  unfolding run_length_def using length_takeWhile_le[of "in_cls cs" "drop i t"] by simp

lemma rep_counts:
  assumes "j \<in> set (if greedy then rev [lo..<Suc n] else [lo..<Suc n])"
    and "n = (case hi of None \<Rightarrow> run_length t cs i | Some h \<Rightarrow> min h (run_length t cs i))"
  shows "lo \<le> j \<and> j \<le> run_length t cs i \<and> (\<forall>h. hi = Some h \<longrightarrow> j \<le> h)"
  using assms by (cases hi) (auto split: if_splits)

lemma rmatch_reach:
  "rmatch t r k s = Some y \<Longrightarrow>
     \<exists>s'. fst s + min_len r \<le> fst s' \<and> (fst s \<le> length t \<longrightarrow> fst s' \<le> length t) \<and> k s' = Some y"
proof (induction r arbitrary: k s)
  case Eps
  then show ?case by (intro exI[of _ s]) simp
next
  case (Cls cs)
  then have "fst s < length t" "k (Suc (fst s), snd s) = Some y"
    by (auto split: if_splits)
  then show ?case by (intro exI[of _ "(Suc (fst s), snd s)"]) simp
next
  case (Seq a b)
  from Seq.prems have "rmatch t a (rmatch t b k) s = Some y" by simp
  from Seq.IH(1)[OF this] obtain s1 where
    1: "fst s + min_len a \<le> fst s1" "fst s \<le> length t \<longrightarrow> fst s1 \<le> length t"
       "rmatch t b k s1 = Some y" by blast
  from Seq.IH(2)[OF 1(3)] obtain s2 where
    2: "fst s1 + min_len b \<le> fst s2" "fst s1 \<le> length t \<longrightarrow> fst s2 \<le> length t"
       "k s2 = Some y" by blast
  from 1 2 show ?case by (intro exI[of _ s2]) simp
next
  case (Alt a b)
  from Alt.prems consider "rmatch t a k s = Some y" | "rmatch t b k s = Some y"
    by (auto split: option.splits)
  then show ?case
  proof cases
    case 1
    from Alt.IH(1)[OF this] obtain s' where
      "fst s + min_len a \<le> fst s'" "fst s \<le> length t \<longrightarrow> fst s' \<le> length t" "k s' = Some y"
      by blast
    then show ?thesis by (intro exI[of _ s']) simp
  next
    case 2
    from Alt.IH(2)[OF this] obtain s' where
      "fst s + min_len b \<le> fst s'" "fst s \<le> length t \<longrightarrow> fst s' \<le> length t" "k s' = Some y"
      by blast
    then show ?thesis by (intro exI[of _ s']) simp
  qed
next
  case (Opt a)
  from Opt.prems consider "rmatch t a k s = Some y" | "k s = Some y"
    by (auto split: option.splits)
  then show ?case
  proof cases
    case 1
    from Opt.IH[OF this] obtain s' where
      "fst s + min_len a \<le> fst s'" "fst s \<le> length t \<longrightarrow> fst s' \<le> length t" "k s' = Some y"
      by blast
    then show ?thesis by (intro exI[of _ s']) simp
  next
    case 2
    then show ?thesis by (intro exI[of _ s]) simp
  qed
next
  case (Rep cs lo hi greedy)
  define n where "n = (case hi of None \<Rightarrow> run_length t cs (fst s)
                        | Some h \<Rightarrow> min h (run_length t cs (fst s)))"
  from Rep have "first_some (\<lambda>j. k (fst s + j, snd s))
      (if greedy then rev [lo..<Suc n] else [lo..<Suc n]) = Some y"
    unfolding n_def by (simp only: rmatch.simps Let_def)
  from first_some_Some[OF this] obtain j where
    j: "j \<in> set (if greedy then rev [lo..<Suc n] else [lo..<Suc n])" "k (fst s + j, snd s) = Some y"
    by blast
  from rep_counts[OF j(1) n_def] have b: "lo \<le> j" "j \<le> run_length t cs (fst s)" by simp_all
  with run_length_le[of t cs "fst s"] have "fst s \<le> length t \<longrightarrow> fst s + j \<le> length t" by arith
  with b j(2) show ?case by (intro exI[of _ "(fst s + j, snd s)"]) simp
next
  case (Grp a)
  from Grp.prems have "rmatch t a (\<lambda>s'. k (fst s', Some (fst s, fst s'))) s = Some y" by simp
  from Grp.IH[OF this] obtain s1 :: mstate where
    "fst s + min_len a \<le> fst s1" "fst s \<le> length t \<longrightarrow> fst s1 \<le> length t"
    "k (fst s1, Some (fst s, fst s1)) = Some y" by blast
  then show ?case by (intro exI[of _ "(fst s1, Some (fst s, fst s1))"]) simp
next
  case WordB
  then have "k s = Some y" by (simp split: if_splits)
  then show ?case by (intro exI[of _ s]) simp
qed

lemma match_at_span:
  assumes "match_at r t must i = Some m"
  shows "m_start m = i \<and> i + min_len r \<le> m_end m \<and> (i \<le> length t \<longrightarrow> m_end m \<le> length t)
         \<and> (must \<longrightarrow> m_end m \<noteq> i)"
proof -
  from assms rmatch_reach[of t r _ "(i, None)" m] obtain s' where
    s: "i + min_len r \<le> fst s'" "i \<le> length t \<longrightarrow> fst s' \<le> length t"
       "(if must \<and> fst s' = i then None
         else Some \<lparr>m_start = i, m_end = fst s', m_group1 = snd s'\<rparr>) = Some m"
    unfolding match_at_def by fastforce
  from s(3) have "\<not> (must \<and> fst s' = i)" "m = \<lparr>m_start = i, m_end = fst s', m_group1 = snd s'\<rparr>"
    by (auto split: if_splits)
  with s(1,2) show ?thesis by auto
qed

lemma first_some_upt:
  "first_some f [a..<b] = Some y \<Longrightarrow>
     \<exists>i. a \<le> i \<and> i < b \<and> f i = Some y \<and> (\<forall>j. a \<le> j \<and> j < i \<longrightarrow> f j = None)"
proof (induction "b - a" arbitrary: a)
  case 0
  then show ?case by simp
next
  case (Suc n)
  then have ab: "a < b" and up: "[a..<b] = a # [Suc a..<b]" by (simp_all add: upt_conv_Cons)
  show ?case
  proof (cases "f a")
    case None
    with Suc.prems up have "first_some f [Suc a..<b] = Some y" by simp
    moreover have "n = b - Suc a" using Suc.hyps(2) by simp
    ultimately obtain i where
      i: "Suc a \<le> i" "i < b" "f i = Some y" "\<forall>j. Suc a \<le> j \<and> j < i \<longrightarrow> f j = None"
      using Suc.hyps(1) by blast
    have "\<forall>j. a \<le> j \<and> j < i \<longrightarrow> f j = None"
    proof (intro allI impI)
      fix j assume "a \<le> j \<and> j < i"
      then show "f j = None" using i(4) None by (cases "j = a") auto
    qed
    with i show ?thesis by (intro exI[of _ i]) simp
  next
    case (Some z)
    with Suc.prems up have "f a = Some y" by simp
    with ab show ?thesis by (intro exI[of _ a]) auto
  qed
qed

lemma search_from_span:
  assumes "search_from r t pos must = Some m"
  shows "pos \<le> m_start m \<and> m_start m + min_len r \<le> m_end m \<and> m_end m \<le> length t
         \<and> (must \<longrightarrow> pos < m_end m)
         \<and> match_at r t (must \<and> m_start m = pos) (m_start m) = Some m
         \<and> (\<forall>i. pos \<le> i \<and> i < m_start m \<longrightarrow> match_at r t (must \<and> i = pos) i = None)"
proof -
  from first_some_upt[OF assms[unfolded search_from_def]] obtain i where
    h: "pos \<le> i" "i < Suc (length t)"
       "match_at r t (must \<and> i = pos) i = Some m"
       "\<forall>j. pos \<le> j \<and> j < i \<longrightarrow> match_at r t (must \<and> j = pos) j = None" by blast
  from match_at_span[OF h(3)] have
    m: "m_start m = i" "i + min_len r \<le> m_end m" "m_end m \<le> length t"
       "must \<and> i = pos \<longrightarrow> m_end m \<noteq> i"
    using h(2) by auto
  have "must \<longrightarrow> pos < m_end m" using m h(1) by auto
  then show ?thesis using m h by simp
qed

lemma search_from_guard:
  assumes "search_from r t pos must = Some m"
  shows "pos \<le> m_end m \<and> m_end m \<le> length t \<and>
         (pos < m_end m \<or> (m_end m = m_start m \<and> \<not> must))"
  using search_from_span[OF assms] by auto

lemma matches_from_span:
  "m \<in> set (matches_from r t pos must) \<Longrightarrow>
     pos \<le> m_start m \<and> m_start m + min_len r \<le> m_end m \<and> m_end m \<le> length t"
proof (induction r t pos must rule: matches_from.induct)
  case (1 r t pos must)
  show ?case
  proof (cases "search_from r t pos must")
    case None
    with "1.prems" show ?thesis by (simp add: matches_from.simps[of r t pos must])
  next
    case (Some m0)
    note g = search_from_guard[OF Some] and sp = search_from_span[OF Some]
    from "1.prems" Some g have "m = m0 \<or> m \<in> set (matches_from r t (m_end m0) (m_end m0 = m_start m0))"
      by (simp add: matches_from.simps[of r t pos must])
    then show ?thesis
    proof
      assume "m = m0"
      with sp show ?thesis by simp
    next
      assume a: "m \<in> set (matches_from r t (m_end m0) (m_end m0 = m_start m0))"
      have "m_end m0 \<le> m_start m \<and> m_start m + min_len r \<le> m_end m \<and> m_end m \<le> length t"
        using "1.IH"[OF Some _ a] g by blast
      with g show ?thesis by simp
    qed
  qed
qed

lemma matches_from_ordered:
  "sorted_wrt (\<lambda>a b. m_end a \<le> m_start b) (matches_from r t pos must)"
proof (induction r t pos must rule: matches_from.induct)
  case (1 r t pos must)
  show ?case
  proof (cases "search_from r t pos must")
    case None
    then show ?thesis by (simp add: matches_from.simps[of r t pos must])
  next
    case (Some m0)
    note g = search_from_guard[OF Some]
    have eq: "matches_from r t pos must = m0 # matches_from r t (m_end m0) (m_end m0 = m_start m0)"
      using Some g by (simp add: matches_from.simps[of r t pos must])
    have "sorted_wrt (\<lambda>a b. m_end a \<le> m_start b) (matches_from r t (m_end m0) (m_end m0 = m_start m0))"
      using "1.IH"[OF Some] g by blast
    moreover have "\<forall>m \<in> set (matches_from r t (m_end m0) (m_end m0 = m_start m0)). m_end m0 \<le> m_start m"
      using matches_from_span by blast
    ultimately show ?thesis unfolding eq by simp
  qed
qed

lemma matches_from_unguarded:
  "matches_from r t pos must =
     (case search_from r t pos must of None \<Rightarrow> []
      | Some m \<Rightarrow> m # matches_from r t (m_end m) (m_end m = m_start m))"
proof (cases "search_from r t pos must")
  case None
  then show ?thesis by (simp add: matches_from.simps[of r t pos must])
next
  case (Some m)
  from search_from_guard[OF Some] Some show ?thesis
    by (simp add: matches_from.simps[of r t pos must])
qed











section \<open>Properties of the contact and experience extractors\<close>

lemma phone_loop_first:
  "\<forall>q \<in> set ps. re_search q t = None \<Longrightarrow> re_search p t = Some m \<Longrightarrow>
     phone_loop (ps @ p # qs) t = Some (group0 t m)"
  by (induction ps) simp_all

lemma phone_loop_none: "\<forall>q \<in> set ps. re_search q t = None \<Longrightarrow> phone_loop ps t = None"
  by (induction ps) simp_all

lemma search_first_phone_pattern: "re_search (phone_patterns ! 0) ''(555) 123-4567 or 1 800 555 1234''
   = Some \<lparr>m_start = 18, m_end = 32, m_group1 = None\<rparr>"
  by code_simp

lemma search_second_phone_pattern: "re_search (phone_patterns ! 1) ''(555) 123-4567 or 1 800 555 1234''
   = Some \<lparr>m_start = 0, m_end = 14, m_group1 = None\<rparr>"
  by code_simp

text \<open>
  C2. The phone number is the first match (the leftmost one) of the first pattern, in the
  order of the list, that is found anywhere in the text: when the patterns before \<open>p\<close>
  are not found and \<open>p\<close> is found with the match \<open>m\<close>, the result is the text of \<open>m\<close>,
  whatever patterns follow \<open>p\<close> in the list and whatever they would match; no position
  before the start of \<open>m\<close> has a match of \<open>p\<close>. When no pattern is found the phone
  number is \<open>None\<close>.
\<close>

theorem phone_priority:
  "(phone_patterns = ps @ p # qs \<and> (\<forall>q \<in> set ps. re_search q text = None)
      \<and> re_search p text = Some m \<longrightarrow>
        phone (extract_contact_info text) = Some (group0 text m)
        \<and> (\<forall>qs'. phone_loop (ps @ p # qs') text = Some (group0 text m))
        \<and> (\<forall>i < m_start m. match_at p text False i = None))
   \<and> ((\<forall>q \<in> set phone_patterns. re_search q text = None) \<longrightarrow>
        phone (extract_contact_info text) = None)"
proof (intro conjI impI)
  assume a: "phone_patterns = ps @ p # qs \<and> (\<forall>q \<in> set ps. re_search q text = None)
      \<and> re_search p text = Some m"
  then have l: "\<And>qs'. phone_loop (ps @ p # qs') text = Some (group0 text m)"
    using phone_loop_first by blast
  from a l[of qs] show "phone (extract_contact_info text) = Some (group0 text m)"
    by (simp add: extract_contact_info_def)
  from l show "\<forall>qs'. phone_loop (ps @ p # qs') text = Some (group0 text m)" by blast
  from a have "search_from p text 0 False = Some m" by (simp add: re_search_def)
  from search_from_span[OF this] show "\<forall>i < m_start m. match_at p text False i = None" by simp
next
  assume "\<forall>q \<in> set phone_patterns. re_search q text = None"
  then show "phone (extract_contact_info text) = None"
    by (simp add: extract_contact_info_def phone_loop_none)
qed

theorem phone_priority_witness:
  "phone_patterns = [] @ (phone_patterns ! 0) # tl phone_patterns
   \<and> re_search (phone_patterns ! 0) ''(555) 123-4567 or 1 800 555 1234''
        = Some \<lparr>m_start = 18, m_end = 32, m_group1 = None\<rparr>
   \<and> re_search (phone_patterns ! 1) ''(555) 123-4567 or 1 800 555 1234''
        = Some \<lparr>m_start = 0, m_end = 14, m_group1 = None\<rparr>
   \<and> phone (extract_contact_info ''(555) 123-4567 or 1 800 555 1234'') = Some ''1 800 555 1234''
   \<and> map (\<lambda>q. re_search q ''no number'') phone_patterns = [None, None, None]
   \<and> phone (extract_contact_info ''no number'') = None"
proof -
  let ?t = "''(555) 123-4567 or 1 800 555 1234''"
  let ?m = "\<lparr>m_start = 18, m_end = 32, m_group1 = None\<rparr>"
  have a: "phone_patterns = [] @ (phone_patterns ! 0) # tl phone_patterns"
    by (simp add: phone_patterns_def)
  have b: "\<forall>q \<in> set []. re_search q ?t = None" by simp
  have g: "group0 ?t ?m = ''1 800 555 1234''" by code_simp
  have n: "map (\<lambda>q. re_search q ''no number'') phone_patterns = [None, None, None]" by code_simp
  have "set (map (\<lambda>q. re_search q ''no number'') phone_patterns) = {None}"
    unfolding n by simp
  then have n': "\<forall>q \<in> set phone_patterns. re_search q ''no number'' = None" by auto
  from phone_priority[of "[]" "phone_patterns ! 0" "tl phone_patterns" ?t ?m] a b
    search_first_phone_pattern
  have "phone (extract_contact_info ?t) = Some (group0 ?t ?m)" by blast
  then have p: "phone (extract_contact_info ?t) = Some ''1 800 555 1234''" by (simp only: g)
  from phone_priority[of "[]" "phone_patterns ! 0" "tl phone_patterns" "''no number''" ?m] n'
  have q: "phone (extract_contact_info ''no number'') = None" by blast
  from a search_first_phone_pattern search_second_phone_pattern p n q show ?thesis by blast
qed

lemma title_loop_eq:
  "title_loop ps s acc =
     acc @ (if list_ex (\<lambda>p. re_search p s \<noteq> None) ps then [experience_entry_of s] else [])"
  by (induction ps) simp_all

lemma section_loop_eq:
  "section_loop secs acc = acc @ map experience_entry_of (filter qualifies secs)"
  by (induction secs arbitrary: acc) (simp_all add: title_loop_eq qualifies_def)

lemma pieces_gaps:
  "pieces t prev ms = map (\<lambda>(a, b). drop a (take b t)) (gaps prev ms (length t))"
  by (induction ms arbitrary: prev) simp_all

lemma gaps_ordered:
  "sorted_wrt (\<lambda>a b. m_end a \<le> m_start b) ms \<Longrightarrow>
   \<forall>m \<in> set ms. prev \<le> m_start m \<and> m_start m \<le> m_end m \<and> m_end m \<le> n \<Longrightarrow> prev \<le> n \<Longrightarrow>
   sorted_wrt (\<lambda>a b. snd a \<le> fst b) (gaps prev ms n) \<and>
   (\<forall>g \<in> set (gaps prev ms n). prev \<le> fst g \<and> fst g \<le> snd g \<and> snd g \<le> n)"
proof (induction ms arbitrary: prev)
  case Nil
  then show ?case by simp
next
  case (Cons m ms)
  have "sorted_wrt (\<lambda>a b. snd a \<le> fst b) (gaps (m_end m) ms n) \<and>
     (\<forall>g \<in> set (gaps (m_end m) ms n). m_end m \<le> fst g \<and> fst g \<le> snd g \<and> snd g \<le> n)"
  proof (rule Cons.IH)
    show "sorted_wrt (\<lambda>a b. m_end a \<le> m_start b) ms" using Cons.prems(1) by simp
    show "\<forall>x \<in> set ms. m_end m \<le> m_start x \<and> m_start x \<le> m_end x \<and> m_end x \<le> n"
      using Cons.prems(1,2) by simp
    show "m_end m \<le> n" using Cons.prems(2) by simp
  qed
  moreover have "prev \<le> m_start m" "m_start m \<le> m_end m" "m_end m \<le> n"
    using Cons.prems(2) by simp_all
  ultimately show ?case by fastforce
qed

lemma section_spans_ordered:
  "sorted_wrt (\<lambda>a b. snd a \<le> fst b) (section_spans t) \<and>
   (\<forall>g \<in> set (section_spans t). fst g \<le> snd g \<and> snd g \<le> length t)"
proof -
  have "sorted_wrt (\<lambda>a b. snd a \<le> fst b) (gaps 0 (re_finditer section_break t) (length t)) \<and>
   (\<forall>g \<in> set (gaps 0 (re_finditer section_break t) (length t)).
      0 \<le> fst g \<and> fst g \<le> snd g \<and> snd g \<le> length t)"
  proof (rule gaps_ordered)
    show "sorted_wrt (\<lambda>a b. m_end a \<le> m_start b) (re_finditer section_break t)"
      unfolding re_finditer_def by (rule matches_from_ordered)
    show "\<forall>m \<in> set (re_finditer section_break t).
        0 \<le> m_start m \<and> m_start m \<le> m_end m \<and> m_end m \<le> length t"
      unfolding re_finditer_def using matches_from_span by fastforce
    show "0 \<le> length t" by simp
  qed
  then show ?thesis by (simp add: section_spans_def)
qed

text \<open>
  C3. The experience entries are the entries of the first five sections in which one of
  the job title patterns is found, one entry for each such section, in the order of the
  sections; there are at most five. The sections are the slices of the text between the
  successive separators, from left to right.
\<close>

theorem experience_cap:
  "extract_experience text =
     take 5 (map experience_entry_of (filter qualifies (re_split section_break text)))
   \<and> length (extract_experience text) \<le> 5
   \<and> re_split section_break text = map (\<lambda>(a, b). drop a (take b text)) (section_spans text)
   \<and> sorted_wrt (\<lambda>a b. snd a \<le> fst b) (section_spans text)
   \<and> (\<forall>g \<in> set (section_spans text). fst g \<le> snd g \<and> snd g \<le> length text)"
proof -
  have 1: "extract_experience text =
     take 5 (map experience_entry_of (filter qualifies (re_split section_break text)))"
    by (simp add: extract_experience_def section_loop_eq)
  have 2: "length (extract_experience text) \<le> 5" by (simp add: extract_experience_def)
  have 3: "re_split section_break text = map (\<lambda>(a, b). drop a (take b text)) (section_spans text)"
    by (simp add: re_split_def section_spans_def pieces_gaps)
  from 1 2 3 section_spans_ordered[of "text"] show ?thesis by blast
qed

theorem experience_cap_witness:
  "length (filter qualifies (re_split section_break seven_sections)) = 7
   \<and> length (extract_experience seven_sections) = 5
   \<and> extract_experience seven_sections =
       take 5 (map experience_entry_of (filter qualifies (re_split section_break seven_sections)))
   \<and> map (\<lambda>p. re_search p ''Senior Engineer'' \<noteq> None) job_title_patterns = [True, True]
   \<and> map section_text (extract_experience seven_sections) =
       [''Senior Engineer'', ''Engineer'', ''Engineer'', ''Engineer'', ''Engineer'']
   \<and> section_spans seven_sections =
       [(0, 15), (17, 25), (27, 35), (37, 45), (47, 55), (57, 65), (67, 75)]"
proof -
  have a: "length (filter qualifies (re_split section_break seven_sections)) = 7" by code_simp
  have b: "length (extract_experience seven_sections) = 5" by code_simp
  have c: "section_spans seven_sections =
       [(0, 15), (17, 25), (27, 35), (37, 45), (47, 55), (57, 65), (67, 75)]"
    by code_simp
  have d: "map (\<lambda>p. re_search p ''Senior Engineer'' \<noteq> None) job_title_patterns = [True, True]"
    by code_simp
  have e: "map section_text (extract_experience seven_sections) =
       [''Senior Engineer'', ''Engineer'', ''Engineer'', ''Engineer'', ''Engineer'']"
    by code_simp
  from experience_cap[of seven_sections] a b c d e show ?thesis by blast
qed

section \<open>Properties of the education extractor\<close>

lemma match_loop_eq: "match_loop text ms acc = acc @ map (education_entry_of text) ms"
  by (induction ms arbitrary: acc) simp_all

lemma degree_loop_eq:
  "degree_loop text ps acc =
     acc @ concat (map (\<lambda>p. map (education_entry_of text) (re_finditer p text)) ps)"
  by (induction ps arbitrary: acc) (simp_all add: match_loop_eq)

lemma extract_education_eq:
  "extract_education text = map (education_entry_of text) (education_matches text)"
  by (simp add: extract_education_def degree_loop_eq education_matches_def map_concat comp_def)

lemma degree_patterns_nonempty: "map (\<lambda>p. 0 < min_len p) degree_patterns = [True, True]"
  by code_simp

lemma degree_patterns_two: "degree_patterns = [degree_patterns ! 0, degree_patterns ! 1]"
  by (simp add: degree_patterns_def)

lemma re_finditer_span:
  "m \<in> set (re_finditer r t) \<Longrightarrow> m_start m + min_len r \<le> m_end m \<and> m_end m \<le> length t"
  unfolding re_finditer_def using matches_from_span by blast

lemma education_matches_span:
  assumes "m \<in> set (education_matches text)"
  shows "m_start m < m_end m \<and> m_end m \<le> length text"
proof -
  from assms obtain p where p: "p \<in> set degree_patterns" "m \<in> set (re_finditer p text)"
    by (auto simp: education_matches_def)
  from p(1) have "(0 < min_len p) \<in> set (map (\<lambda>p. 0 < min_len p) degree_patterns)" by simp
  then have "0 < min_len p" unfolding degree_patterns_nonempty by simp
  with re_finditer_span[OF p(2)] show ?thesis by simp
qed

text \<open>
  C4, as the code has it. Every match of each of the two degree patterns gives one entry,
  and nothing is removed: the entries of all matches of the first pattern come first, then
  those of all matches of the second pattern. The matches of one pattern are in the order
  of their positions: each is not empty and starts where the previous one ended or later.
\<close>

theorem education_pattern_major:
  "extract_education text =
     map (education_entry_of text) (re_finditer (degree_patterns ! 0) text) @
     map (education_entry_of text) (re_finditer (degree_patterns ! 1) text)
   \<and> length (extract_education text) =
       length (re_finditer (degree_patterns ! 0) text) + length (re_finditer (degree_patterns ! 1) text)
   \<and> (\<forall>p \<in> set degree_patterns.
        sorted_wrt (\<lambda>a b. m_end a \<le> m_start b) (re_finditer p text)
        \<and> (\<forall>m \<in> set (re_finditer p text). m_start m < m_end m \<and> m_end m \<le> length text))"
proof -
  have em: "education_matches text =
      re_finditer (degree_patterns ! 0) text @ re_finditer (degree_patterns ! 1) text"
    unfolding education_matches_def by (subst degree_patterns_two) simp
  have 1: "extract_education text =
     map (education_entry_of text) (re_finditer (degree_patterns ! 0) text) @
     map (education_entry_of text) (re_finditer (degree_patterns ! 1) text)"
    by (simp add: extract_education_eq em)
  have 2: "length (extract_education text) =
       length (re_finditer (degree_patterns ! 0) text) + length (re_finditer (degree_patterns ! 1) text)"
    unfolding 1 by simp
  have 3: "sorted_wrt (\<lambda>a b. m_end a \<le> m_start b) (re_finditer p text)" for p
    unfolding re_finditer_def by (rule matches_from_ordered)
  have 4: "m_start m < m_end m \<and> m_end m \<le> length text"
    if "p \<in> set degree_patterns" "m \<in> set (re_finditer p text)" for p m
  proof (rule education_matches_span)
    show "m \<in> set (education_matches text)" using that by (auto simp: education_matches_def)
  qed
  from 1 2 3 4 show ?thesis by blast
qed

theorem education_pattern_major_witness:
  "extract_education ''Diploma of MS in Data'' =
     [\<lparr>degree = ''MS in Data'', details = ''Diploma of MS in Data''\<rparr>,
      \<lparr>degree = ''Diploma of MS in Data'', details = ''Diploma of MS in Data''\<rparr>]
   \<and> re_finditer (degree_patterns ! 0) ''Diploma of MS in Data''
        = [\<lparr>m_start = 11, m_end = 21, m_group1 = Some (11, 13)\<rparr>]
   \<and> re_finditer (degree_patterns ! 1) ''Diploma of MS in Data''
        = [\<lparr>m_start = 0, m_end = 21, m_group1 = Some (0, 7)\<rparr>]"
proof -
  let ?t = "''Diploma of MS in Data''"
  have a: "re_finditer (degree_patterns ! 0) ?t = [\<lparr>m_start = 11, m_end = 21, m_group1 = Some (11, 13)\<rparr>]"
    by code_simp
  have b: "re_finditer (degree_patterns ! 1) ?t = [\<lparr>m_start = 0, m_end = 21, m_group1 = Some (0, 7)\<rparr>]"
    by code_simp
  have c: "education_entry_of ?t \<lparr>m_start = 11, m_end = 21, m_group1 = Some (11, 13)\<rparr>
      = \<lparr>degree = ''MS in Data'', details = ''Diploma of MS in Data''\<rparr>" by code_simp
  have d: "education_entry_of ?t \<lparr>m_start = 0, m_end = 21, m_group1 = Some (0, 7)\<rparr>
      = \<lparr>degree = ''Diploma of MS in Data'', details = ''Diploma of MS in Data''\<rparr>" by code_simp
  from education_pattern_major[of ?t] have "extract_education ?t =
     map (education_entry_of ?t) (re_finditer (degree_patterns ! 0) ?t) @
     map (education_entry_of ?t) (re_finditer (degree_patterns ! 1) ?t)" by blast
  then have "extract_education ?t =
     [\<lparr>degree = ''MS in Data'', details = ''Diploma of MS in Data''\<rparr>,
      \<lparr>degree = ''Diploma of MS in Data'', details = ''Diploma of MS in Data''\<rparr>]"
    unfolding a b by (simp only: list.map append.simps c d)
  with a b show ?thesis by blast
qed

text \<open>
  C4, as stated, has the entries in the order of their positions in the text first. In
  \<open>two_degrees\<close> the diploma starts at position 0 and the bachelor's degree at position
  17, and the entry of the bachelor's degree comes first.
\<close>

theorem education_position_order_counterexample:
  "map m_start (education_matches two_degrees) = [17, 0]
   \<and> map degree (extract_education two_degrees) = [''Bachelor of Science'', ''Diploma of Arts'']
   \<and> \<not> sorted (map m_start (education_matches two_degrees))"
proof -
  have a: "map m_start (education_matches two_degrees) = [17, 0]" by code_simp
  have b: "map degree (extract_education two_degrees) = [''Bachelor of Science'', ''Diploma of Arts'']"
    by code_simp
  have "\<not> sorted [17, 0 :: nat]" by simp
  with a b show ?thesis by simp
qed

lemma take_min_length: "take (min n (length xs)) xs = take n xs"
  by (cases "n \<le> length xs") (simp_all add: min_def)

lemma context_slice:
  assumes "s \<le> e" "e \<le> length text"
  shows "py_slice text (max 0 (int s - 200)) (min (int (length text)) (int e + 200))
         = context_window text s e"
proof -
  have ci1: "clip_index (length text) (max 0 (int s - 200)) = s - 200"
    using assms by (auto simp: clip_index_def)
  have ci2: "clip_index (length text) (min (int (length text)) (int e + 200)) = min (length text) (e + 200)"
    by (auto simp: clip_index_def)
  have "take (min (length text) (e + 200)) text = take (e + 200) text"
    using take_min_length[of "e + 200" "text"] by (simp only: min.commute)
  then have t1: "take (min (length text) (e + 200)) text = take e text @ take 200 (drop e text)"
    by (simp only: take_add)
  have "take s (take e text) = take s text" using assms(1) by (simp add: min_def)
  with append_take_drop_id[of s "take e text"]
  have t2: "take e text = take s text @ drop s (take e text)" by simp
  have t3: "take (min 200 (length text - e)) (drop e text) = take 200 (drop e text)"
    using take_min_length[of 200 "drop e text"] by (simp only: length_drop)
  have l: "length (take s text) = s" using assms by simp
  have "drop (s - 200) (take s text @ drop s (take e text) @ take 200 (drop e text))
      = drop (s - 200) (take s text) @ drop s (take e text) @ take 200 (drop e text)"
    using l by simp
  moreover have "s - min 200 s = s - 200" by simp
  ultimately show ?thesis
    unfolding py_slice_def ci1 ci2 t1 context_window_def t3
    using t2 by (metis append.assoc)
qed

text \<open>
  C5. For a span \<open>s \<le> e \<le> len(text)\<close> the context is, with white space stripped at both
  ends, what \<open>context_window\<close> describes: the \<open>min(200, s)\<close> characters before
  position \<open>s\<close>, the characters from \<open>s\<close> to \<open>e\<close>, and the \<open>min(200, len(text) - e)\<close>
  characters after position \<open>e\<close>. Every match of a degree pattern is such a span, and the
  details of its entry are this context.
\<close>

theorem education_context_window:
  "(s \<le> e \<and> e \<le> length text \<longrightarrow>
      extract_education_context text (int s) (int e) = strip (context_window text s e)
      \<and> length (drop (s - min 200 s) (take s text)) = min 200 s
      \<and> length (take (min 200 (length text - e)) (drop e text)) = min 200 (length text - e))
   \<and> (m \<in> set (education_matches text) \<longrightarrow>
        m_start m \<le> m_end m \<and> m_end m \<le> length text
        \<and> details (education_entry_of text m) = strip (context_window text (m_start m) (m_end m)))"
proof (intro conjI impI)
  assume a: "s \<le> e \<and> e \<le> length text"
  then show "extract_education_context text (int s) (int e) = strip (context_window text s e)"
    by (simp add: extract_education_context_def Let_def context_slice)
  from a show "length (drop (s - min 200 s) (take s text)) = min 200 s" by auto
  show "length (take (min 200 (length text - e)) (drop e text)) = min 200 (length text - e)" by simp
next
  assume "m \<in> set (education_matches text)"
  from education_matches_span[OF this] have b: "m_start m \<le> m_end m" "m_end m \<le> length text"
    by simp_all
  then show "m_start m \<le> m_end m" "m_end m \<le> length text" by simp_all
  from b show "details (education_entry_of text m) = strip (context_window text (m_start m) (m_end m))"
    by (simp add: education_entry_of_def extract_education_context_def Let_def context_slice)
qed

theorem education_context_window_witness:
  "((212::nat) \<le> 222 \<and> 222 \<le> length dotted_degree)
   \<and> extract_education_context dotted_degree 212 222
       = replicate 198 CHR ''.'' @ ''  MS in Data'' @ replicate 200 CHR ''.''
   \<and> length (drop (212 - min 200 212) (take 212 dotted_degree)) = 200
   \<and> \<lparr>m_start = 9, m_end = 21, m_group1 = Some (9, 11)\<rparr> \<in> set (education_matches ''Studies: MS in Data  '')
   \<and> details (education_entry_of ''Studies: MS in Data  '' \<lparr>m_start = 9, m_end = 21, m_group1 = Some (9, 11)\<rparr>)
       = ''Studies: MS in Data''"
proof -
  let ?m = "\<lparr>m_start = 9, m_end = 21, m_group1 = Some (9, 11)\<rparr>"
  let ?t = "''Studies: MS in Data  ''"
  have a: "(212::nat) \<le> 222 \<and> 222 \<le> length dotted_degree" by code_simp
  have b: "strip (context_window dotted_degree 212 222)
       = replicate 198 CHR ''.'' @ ''  MS in Data'' @ replicate 200 CHR ''.''" by code_simp
  have c: "?m \<in> set (education_matches ?t)" by code_simp
  have d: "strip (context_window ?t (m_start ?m) (m_end ?m)) = ''Studies: MS in Data''" by code_simp
  from education_context_window[of 212 222 dotted_degree] a
  have e: "extract_education_context dotted_degree (int 212) (int 222)
        = strip (context_window dotted_degree 212 222)
      \<and> length (drop (212 - min 200 212) (take 212 dotted_degree)) = min 200 212" by blast
  from education_context_window[of _ _ ?t ?m] c
  have f: "details (education_entry_of ?t ?m) = strip (context_window ?t (m_start ?m) (m_end ?m))"
    by blast
  from e have e1: "extract_education_context dotted_degree 212 222
       = replicate 198 CHR ''.'' @ ''  MS in Data'' @ replicate 200 CHR ''.''"
    unfolding b by simp
  from e have e2: "length (drop (212 - min 200 212) (take 212 dotted_degree)) = 200" by simp
  from a e1 e2 c f[unfolded d] show ?thesis by (intro conjI) simp_all
qed

section \<open>Properties of the company field\<close>

















end
